theory Spec2Isabelle
  imports Complex_Main
begin

section \<open>The Tic-Tac-Toe environment (class TicTacToeGame)\<close>

text \<open>
  Python exceptions that the modelled code can raise: an out-of-range list read or
  \<open>random.choice\<close> on an empty sequence (IndexError), a float division by a zero visit
  count (ZeroDivisionError), and the conversion to float of an integer beyond the range
  of a double (OverflowError).
\<close>

datatype py_error = IndexError | ZeroDivisionError | OverflowError

text \<open>
  A cell is a Python \<open>str\<close>; the board is a Python list of cells. The three cell values the
  program itself writes are \<open>' '\<close>, \<open>'X'\<close> and \<open>'O'\<close>. \<open>winner\<close> is \<open>None\<close> or a mark.
\<close>

record TicTacToeGame =
  board :: "string list"
  current_player :: string
  winner :: "string option"
  game_over :: bool

definition get_state :: "TicTacToeGame \<Rightarrow> string" where
  "get_state g = concat (board g)"

definition reset :: "TicTacToeGame \<Rightarrow> string \<times> TicTacToeGame" where
  "reset g =
     (let g' = g\<lparr>board := map (\<lambda>_. '' '') [0..<9],
                 current_player := ''X'',
                 winner := None,
                 game_over := False\<rparr>
      in (get_state g', g'))"

text \<open>The constructor \<open>TicTacToeGame()\<close> creates an object and calls \<open>reset\<close> on it.\<close>

definition TicTacToeGame_init :: TicTacToeGame where
  "TicTacToeGame_init =
     snd (reset \<lparr>board = [], current_player = [], winner = None, game_over = False\<rparr>)"

definition available_moves :: "TicTacToeGame \<Rightarrow> int list" where
  "available_moves g =
     map (\<lambda>(i, spot). int i) (filter (\<lambda>(i, spot). spot = '' '') (enumerate 0 (board g)))"

text \<open>Reading \<open>xs[i]\<close> for a non-negative index: IndexError beyond the end.\<close>

definition getitem :: "'a list \<Rightarrow> nat \<Rightarrow> py_error + 'a" where
  "getitem xs i = (if i < length xs then Inr (xs ! i) else Inl IndexError)"

text \<open>
  The chained comparison \<open>b[i] == b[j] == b[k] == player\<close> is
  \<open>b[i] == b[j] and b[j] == b[k] and b[k] == player\<close> with every operand evaluated at most
  once, left to right: \<open>b[k]\<close> is only read when the first comparison holds.
\<close>

definition line_eq :: "string list \<Rightarrow> nat \<Rightarrow> nat \<Rightarrow> nat \<Rightarrow> string \<Rightarrow> py_error + bool" where
  "line_eq b i j k player =
     (case getitem b i of Inl e \<Rightarrow> Inl e | Inr x \<Rightarrow>
      case getitem b j of Inl e \<Rightarrow> Inl e | Inr y \<Rightarrow>
      if x \<noteq> y then Inr False else
      case getitem b k of Inl e \<Rightarrow> Inl e | Inr z \<Rightarrow>
      Inr (y = z \<and> z = player))"

text \<open>A \<open>for\<close> loop over lines that returns \<open>True\<close> at the first line held by the player.\<close>

fun check_lines :: "string list \<Rightarrow> (nat \<times> nat \<times> nat) list \<Rightarrow> string \<Rightarrow> py_error + bool" where
  "check_lines b [] player = Inr False"
| "check_lines b ((i, j, k) # rest) player =
     (case line_eq b i j k player of
        Inl e \<Rightarrow> Inl e
      | Inr hit \<Rightarrow> if hit then Inr True else check_lines b rest player)"

definition check_win :: "TicTacToeGame \<Rightarrow> string \<Rightarrow> py_error + bool" where
  "check_win g player =
     (case check_lines (board g) (map (\<lambda>i. (i, i + 1, i + 2)) [0, 3, 6]) player of
        Inl e \<Rightarrow> Inl e
      | Inr row \<Rightarrow> if row then Inr True else
     (case check_lines (board g) (map (\<lambda>i. (i, i + 3, i + 6)) [0..<3]) player of
        Inl e \<Rightarrow> Inl e
      | Inr col \<Rightarrow> if col then Inr True else
     (case line_eq (board g) 0 4 8 player of
        Inl e \<Rightarrow> Inl e
      | Inr d1 \<Rightarrow> if d1 then Inr True else
     (case line_eq (board g) 2 4 6 player of
        Inl e \<Rightarrow> Inl e
      | Inr d2 \<Rightarrow> if d2 then Inr True else Inr False))))"

definition check_tie :: "TicTacToeGame \<Rightarrow> bool" where
  "check_tie g = ('' '' \<notin> set (board g) \<and> winner g = None)"

text \<open>
  \<open>make_move(position, player=None)\<close>. The result \<open>Inr (ok, g')\<close> is the returned boolean
  and the session after the call. The store \<open>self.board[position] = player\<close> is only reached
  when \<open>position\<close> is one of the indices listed by \<open>available_moves\<close>, hence in range.
\<close>

definition make_move ::
  "int \<Rightarrow> string option \<Rightarrow> TicTacToeGame \<Rightarrow> py_error + (bool \<times> TicTacToeGame)" where
  "make_move position player_arg g =
     (let player = (case player_arg of None \<Rightarrow> current_player g | Some p \<Rightarrow> p) in
      if position \<notin> set (available_moves g) then Inr (False, g)
      else
        let g1 = g\<lparr>board := (board g)[nat position := player]\<rparr> in
        case check_win g1 player of
          Inl e \<Rightarrow> Inl e
        | Inr won \<Rightarrow>
            if won then Inr (True, g1\<lparr>winner := Some player, game_over := True\<rparr>)
            else if check_tie g1 then Inr (True, g1\<lparr>game_over := True\<rparr>)
            else Inr (True, g1\<lparr>current_player :=
                                  (if current_player g1 = ''X'' then ''O'' else ''X'')\<rparr>))"

section \<open>Python floats\<close>

text \<open>
  A Python \<open>float\<close> is an IEEE 754 binary64 value: a finite double, an infinity or NaN.
  A finite double is represented by the real number it denotes; the sign of a zero is not
  represented (the program only adds, subtracts, divides by a count and compares, which
  cannot tell the two zeros apart).
\<close>

datatype pyfloat = Finite real | PosInf | NegInf | NaN

definition pow2 :: "int \<Rightarrow> real" where
  "pow2 k = (if 0 \<le> k then 2 ^ nat k else 1 / 2 ^ nat (- k))"

text \<open>Rounding to the nearest integer, a tie going to the even neighbour.\<close>

definition round_half_even :: "real \<Rightarrow> int" where
  "round_half_even x =
     (let f = \<lfloor>x\<rfloor>; d = x - of_int f
      in if d < 1 / 2 then f else if 1 / 2 < d then f + 1 else if even f then f else f + 1)"

text \<open>
  The spacing of the doubles around \<open>x\<close> is \<open>2 ^ q\<close> for the least \<open>q\<close> from -1074 (the
  subnormal spacing) to 971 (the spacing below \<open>2 ^ 1024\<close>) with \<open>|x| < 2 ^ (q + 53)\<close>;
  there is none when \<open>|x|\<close> is \<open>2 ^ 1024\<close> or more.
\<close>

definition quantum :: "real \<Rightarrow> int option" where
  "quantum x = List.find (\<lambda>q. \<bar>x\<bar> < pow2 (q + 53)) [- 1074..971]"

text \<open>
  The result of an arithmetic operation whose exact result is \<open>x\<close>: the nearest double,
  a tie going to the even significand, and an infinity when that is beyond the largest
  double.
\<close>

definition round64 :: "real \<Rightarrow> pyfloat" where
  "round64 x =
     (case quantum x of
        None \<Rightarrow> if 0 < x then PosInf else NegInf
      | Some q \<Rightarrow>
          let y = of_int (round_half_even (x / pow2 q)) * pow2 q
          in if pow2 1024 \<le> \<bar>y\<bar> then (if 0 < x then PosInf else NegInf) else Finite y)"

fun fneg :: "pyfloat \<Rightarrow> pyfloat" where
  "fneg (Finite x) = Finite (- x)"
| "fneg PosInf = NegInf"
| "fneg NegInf = PosInf"
| "fneg NaN = NaN"

text \<open>\<open>x + y\<close> and \<open>x - y\<close> on floats.\<close>

fun fadd :: "pyfloat \<Rightarrow> pyfloat \<Rightarrow> pyfloat" where
  "fadd NaN y = NaN"
| "fadd x NaN = NaN"
| "fadd PosInf NegInf = NaN"
| "fadd NegInf PosInf = NaN"
| "fadd PosInf y = PosInf"
| "fadd x PosInf = PosInf"
| "fadd NegInf y = NegInf"
| "fadd x NegInf = NegInf"
| "fadd (Finite x) (Finite y) = round64 (x + y)"

definition fsub :: "pyfloat \<Rightarrow> pyfloat \<Rightarrow> pyfloat" where
  "fsub x y = fadd x (fneg y)"

text \<open>\<open>x < y\<close> and \<open>x == y\<close> on floats; every comparison with NaN is false.\<close>

fun flt :: "pyfloat \<Rightarrow> pyfloat \<Rightarrow> bool" where
  "flt NaN y = False"
| "flt x NaN = False"
| "flt x NegInf = False"
| "flt NegInf y = True"
| "flt PosInf y = False"
| "flt (Finite x) PosInf = True"
| "flt (Finite x) (Finite y) = (x < y)"

fun feq :: "pyfloat \<Rightarrow> pyfloat \<Rightarrow> bool" where
  "feq (Finite x) (Finite y) = (x = y)"
| "feq PosInf PosInf = True"
| "feq NegInf NegInf = True"
| "feq x y = False"

text \<open>
  \<open>x / n\<close> for a float \<open>x\<close> and an integer \<open>n\<close>: the integer is converted to a float first
  (correctly rounded, OverflowError when it is beyond the range of a double), a zero
  divisor raises ZeroDivisionError, and the quotient by the finite non-zero divisor is
  rounded.
\<close>

fun fdiv :: "pyfloat \<Rightarrow> real \<Rightarrow> pyfloat" where
  "fdiv (Finite x) d = round64 (x / d)"
| "fdiv PosInf d = (if 0 < d then PosInf else NegInf)"
| "fdiv NegInf d = (if 0 < d then NegInf else PosInf)"
| "fdiv NaN d = NaN"

definition truediv :: "pyfloat \<Rightarrow> int \<Rightarrow> py_error + pyfloat" where
  "truediv x n =
     (case round64 (of_int n) of
        Finite d \<Rightarrow> if d = 0 then Inl ZeroDivisionError else Inr (fdiv x d)
      | _ \<Rightarrow> Inl OverflowError)"

section \<open>The learning agent (class SimpleAIAgent)\<close>

text \<open>
  The two tables are \<open>defaultdict\<close>s: a partial map records which keys have an entry.
  Values are floats, visit counts are Python integers.
\<close>

record SimpleAIAgent =
  epsilon :: real
  state_values :: "string \<rightharpoonup> pyfloat"
  state_visits :: "string \<rightharpoonup> int"

definition SimpleAIAgent_init :: "real \<Rightarrow> SimpleAIAgent" where
  "SimpleAIAgent_init eps =
     \<lparr>epsilon = eps, state_values = Map.empty, state_visits = Map.empty\<rparr>"

text \<open>
  \<open>d[k]\<close> on a \<open>defaultdict\<close>: a missing key is first inserted with the default
  (\<open>__missing__\<close>), then read. The result is the value read and the dictionary afterwards.
\<close>

definition defaultdict_getitem :: "('k \<rightharpoonup> 'v) \<Rightarrow> 'v \<Rightarrow> 'k \<Rightarrow> 'v \<times> ('k \<rightharpoonup> 'v)" where
  "defaultdict_getitem d dflt k =
     (case d k of None \<Rightarrow> (dflt, d(k \<mapsto> dflt)) | Some v \<Rightarrow> (v, d))"

text \<open>
  \<open>random.choice(seq)\<close>: IndexError on an empty sequence, otherwise the element at an index
  below \<open>len(seq)\<close> drawn by the generator; \<open>r\<close> is the generator's draw.
\<close>

definition random_choice :: "nat \<Rightarrow> 'a list \<Rightarrow> py_error + 'a" where
  "random_choice r xs = (if xs = [] then Inl IndexError else Inr (xs ! (r mod length xs)))"

text \<open>
  List objects live in a store, addressed by position, so that a copy and the list it was
  copied from are different objects: \<open>xs.copy()\<close> allocates a new object, \<open>xs[i] = v\<close>
  updates the object at the address of \<open>xs\<close>.
\<close>

type_synonym list_store = "string list list"

definition list_copy :: "list_store \<Rightarrow> nat \<Rightarrow> nat \<times> list_store" where
  "list_copy h a = (length h, h @ [h ! a])"

definition list_setitem :: "list_store \<Rightarrow> nat \<Rightarrow> nat \<Rightarrow> string \<Rightarrow> list_store" where
  "list_setitem h a i v = h[a := (h ! a)[i := v]]"

text \<open>
  The state of the exploitation loop of \<open>choose_action\<close>; \<open>best_value\<close> starts at
  \<open>-float('inf')\<close>.
\<close>

record scan_state =
  store :: list_store
  table :: "string \<rightharpoonup> pyfloat"
  best_value :: pyfloat
  best_moves :: "int list"

text \<open>
  One iteration of \<open>for move in available\<close>; \<open>live\<close> is the address of \<open>game.board\<close>.
  \<open>move\<close> ranges over \<open>available_moves\<close>, so the index of the store is in range.
\<close>

definition scan_move :: "nat \<Rightarrow> string \<Rightarrow> int \<Rightarrow> scan_state \<Rightarrow> scan_state" where
  "scan_move live player move s =
     (let (board_copy, h1) = list_copy (store s) live;
          h2 = list_setitem h1 board_copy (nat move) player;
          next_state = concat (h2 ! board_copy);
          (value, vals) = defaultdict_getitem (table s) (Finite 0) next_state
      in if flt (best_value s) value
         then s\<lparr>store := h2, table := vals, best_value := value, best_moves := [move]\<rparr>
         else if feq value (best_value s)
         then s\<lparr>store := h2, table := vals, best_moves := best_moves s @ [move]\<rparr>
         else s\<lparr>store := h2, table := vals\<rparr>)"

fun scan_moves :: "nat \<Rightarrow> string \<Rightarrow> int list \<Rightarrow> scan_state \<Rightarrow> scan_state" where
  "scan_moves live player [] s = s"
| "scan_moves live player (move # rest) s = scan_moves live player rest (scan_move live player move s)"

text \<open>
  \<open>choose_action(game, player)\<close> with the two draws it takes from the generator:
  \<open>u\<close> is the result of \<open>random.random()\<close> and \<open>r\<close> the draw of the one \<open>random.choice\<close>
  that is executed. The result is the move, the agent and the session after the call;
  the session's board is read back from its address in the store.
\<close>

definition choose_action ::
  "SimpleAIAgent \<Rightarrow> TicTacToeGame \<Rightarrow> string \<Rightarrow> real \<Rightarrow> nat \<Rightarrow>
   py_error + (int \<times> SimpleAIAgent \<times> TicTacToeGame)" where
  "choose_action a g player u r =
     (let available = available_moves g in
      if u < epsilon a then
        (case random_choice r available of
           Inl e \<Rightarrow> Inl e
         | Inr move \<Rightarrow> Inr (move, a, g))
      else
        let s = scan_moves 0 player available
                  \<lparr>store = [board g], table = state_values a,
                   best_value = NegInf, best_moves = []\<rparr>;
            a' = a\<lparr>state_values := table s\<rparr>;
            g' = g\<lparr>board := store s ! 0\<rparr>
        in if best_moves s = [] then
             (case random_choice r available of
                Inl e \<Rightarrow> Inl e
              | Inr move \<Rightarrow> Inr (move, a', g'))
           else
             (case random_choice r (best_moves s) of
                Inl e \<Rightarrow> Inl e
              | Inr move \<Rightarrow> Inr (move, a', g')))"

text \<open>
  \<open>learn(state_history, reward)\<close>. Each iteration increments the visit count (a missing
  count reads as 0), then executes
  \<open>state_values[state] += (reward - state_values[state]) / state_visits[state]\<close> in float
  arithmetic, where a missing value reads as 0.0.
\<close>

fun learn :: "string list \<Rightarrow> pyfloat \<Rightarrow> SimpleAIAgent \<Rightarrow> py_error + SimpleAIAgent" where
  "learn [] reward a = Inr a"
| "learn (state # rest) reward a =
     (let (n, visits) = defaultdict_getitem (state_visits a) 0 state;
          visits = visits(state \<mapsto> n + 1);
          (v, vals) = defaultdict_getitem (state_values a) (Finite 0) state
      in case truediv (fsub reward v) (n + 1) of
           Inl e \<Rightarrow> Inl e
         | Inr step \<Rightarrow>
             learn rest reward
               (a\<lparr>state_visits := visits, state_values := vals(state \<mapsto> fadd v step)\<rparr>))"

section \<open>Self-play training (train_agent)\<close>

text \<open>
  The generator is the sequence of draws it will produce: the \<open>t\<close>-th call of
  \<open>choose_action\<close> takes the pair \<open>rng t\<close>. The inner loop \<open>while not game.game_over\<close>
  threads the agent, the session, both trajectories and the number of draws taken.
\<close>

type_synonym rng = "nat \<Rightarrow> real \<times> nat"

function play_loop ::
  "rng \<Rightarrow> SimpleAIAgent \<Rightarrow> TicTacToeGame \<Rightarrow> string list \<Rightarrow> string list \<Rightarrow> nat \<Rightarrow>
   py_error + (SimpleAIAgent \<times> TicTacToeGame \<times> string list \<times> string list \<times> nat)" where
  "play_loop rng a g x_states o_states t =
     (if game_over g then Inr (a, g, x_states, o_states, t)
      else
        let current_state = get_state g;
            x_states' = (if current_player g = ''X'' then x_states @ [current_state] else x_states);
            o_states' = (if current_player g = ''X'' then o_states else o_states @ [current_state])
        in case choose_action a g (current_player g) (fst (rng t)) (snd (rng t)) of
             Inl e \<Rightarrow> Inl e
           | Inr (move, a', g1) \<Rightarrow>
               (case make_move move None g1 of
                  Inl e \<Rightarrow> Inl e
                | Inr (ok, g2) \<Rightarrow> play_loop rng a' g2 x_states' o_states' (t + 1)))"
  by pat_completeness auto

text \<open>One iteration of \<open>for episode in range(episodes)\<close> up to the progress check.\<close>

definition run_episode ::
  "rng \<Rightarrow> SimpleAIAgent \<Rightarrow> TicTacToeGame \<Rightarrow> nat \<Rightarrow>
   py_error + (SimpleAIAgent \<times> TicTacToeGame \<times> nat)" where
  "run_episode rng a g t =
     (case play_loop rng a (snd (reset g)) [] [] t of
        Inl e \<Rightarrow> Inl e
      | Inr (a1, g1, x_states, o_states, t1) \<Rightarrow>
          let (rx, ro) = (if winner g1 = Some ''X'' then (Finite 1, Finite 0)
                          else if winner g1 = Some ''O'' then (Finite 0, Finite 1)
                          else (Finite (1 / 2), Finite (1 / 2)))
          in case learn x_states rx a1 of
               Inl e \<Rightarrow> Inl e
             | Inr a2 \<Rightarrow>
                 (case learn o_states ro a2 of
                    Inl e \<Rightarrow> Inl e
                  | Inr a3 \<Rightarrow> Inr (a3, g1, t1)))"

text \<open>
  The \<open>for\<close> loop over the episode numbers, with the \<open>return None\<close> under
  \<open>if (episode + 1) % 1000 == 0\<close>.
\<close>

fun train_loop ::
  "rng \<Rightarrow> nat list \<Rightarrow> SimpleAIAgent \<Rightarrow> TicTacToeGame \<Rightarrow> nat \<Rightarrow>
   py_error + (SimpleAIAgent \<times> nat)" where
  "train_loop rng [] a g t = Inr (a, t)"
| "train_loop rng (episode # rest) a g t =
     (case run_episode rng a g t of
        Inl e \<Rightarrow> Inl e
      | Inr (a', g', t') \<Rightarrow>
          if (episode + 1) mod 1000 = 0 then Inr (a', t')
          else train_loop rng rest a' g' t')"

text \<open>
  \<open>train_agent(agent, episodes)\<close>, started when \<open>t\<close> draws have been taken; the result is
  the trained agent and the number of draws taken. \<open>range(episodes)\<close> is empty for a
  negative count.
\<close>

definition train_agent :: "SimpleAIAgent \<Rightarrow> int \<Rightarrow> rng \<Rightarrow> nat \<Rightarrow> py_error + (SimpleAIAgent \<times> nat)" where
  "train_agent a episodes rng t = train_loop rng [0..<nat episodes] a TicTacToeGame_init t"

section \<open>Notions used to state the properties\<close>

text \<open>
  The eight winning lines, and \<open>wins\<close>: the mark \<open>p\<close> holds all three cells of one of them.
  On a nine-cell board \<open>check_win\<close> computes exactly \<open>wins\<close> (lemma \<open>check_win_nine\<close>).
\<close>

definition win_lines :: "nat list list" where
  "win_lines = [[0, 1, 2], [3, 4, 5], [6, 7, 8], [0, 3, 6], [1, 4, 7], [2, 5, 8], [0, 4, 8], [2, 4, 6]]"

definition wins :: "string list \<Rightarrow> string \<Rightarrow> bool" where
  "wins b p \<longleftrightarrow>
     (b ! 0 = p \<and> b ! 1 = p \<and> b ! 2 = p) \<or>
     (b ! 3 = p \<and> b ! 4 = p \<and> b ! 5 = p) \<or>
     (b ! 6 = p \<and> b ! 7 = p \<and> b ! 8 = p) \<or>
     (b ! 0 = p \<and> b ! 3 = p \<and> b ! 6 = p) \<or>
     (b ! 1 = p \<and> b ! 4 = p \<and> b ! 7 = p) \<or>
     (b ! 2 = p \<and> b ! 5 = p \<and> b ! 8 = p) \<or>
     (b ! 0 = p \<and> b ! 4 = p \<and> b ! 8 = p) \<or>
     (b ! 2 = p \<and> b ! 4 = p \<and> b ! 6 = p)"

text \<open>
  Legal play: a sequence of \<open>make_move\<close> calls, each made while the game is not over,
  for the mark whose turn it is (given explicitly or by default), and each accepted.
  The result is the session reached, or \<open>None\<close> when a call of the sequence is not legal.
\<close>

fun legal_play :: "(int \<times> string option) list \<Rightarrow> TicTacToeGame \<Rightarrow> TicTacToeGame option" where
  "legal_play [] g = Some g"
| "legal_play ((position, mark) # rest) g =
     (if game_over g \<or> (mark \<noteq> None \<and> mark \<noteq> Some (current_player g)) then None
      else case make_move position mark g of
             Inr (True, g') \<Rightarrow> legal_play rest g'
           | _ \<Rightarrow> None)"

text \<open>
  The invariant of sessions reached by legal play.
\<close>

definition game_inv :: "TicTacToeGame \<Rightarrow> bool" where
  "game_inv g \<longleftrightarrow>
     length (board g) = 9 \<and> set (board g) \<subseteq> {'' '', ''X'', ''O''} \<and>
     current_player g \<in> {''X'', ''O''} \<and>
     (\<not> game_over g \<longrightarrow>
        winner g = None \<and> '' '' \<in> set (board g) \<and>
        \<not> wins (board g) ''X'' \<and> \<not> wins (board g) ''O'') \<and>
     \<not> (wins (board g) ''X'' \<and> wins (board g) ''O'') \<and>
     (\<forall>m. winner g = Some m \<longrightarrow> m \<in> {''X'', ''O''} \<and> wins (board g) m)"

text \<open>
  Two sessions used as concrete inputs: the top row won by \<open>X\<close> after five moves, and a
  full board without a line.
\<close>

definition top_row_won :: TicTacToeGame where
  "top_row_won =
     \<lparr>board = [''X'', ''X'', ''X'', ''O'', ''O'', '' '', '' '', '' '', '' ''],
      current_player = ''X'', winner = Some ''X'', game_over = True\<rparr>"

definition drawn_game :: TicTacToeGame where
  "drawn_game =
     \<lparr>board = [''X'', ''O'', ''X'', ''X'', ''O'', ''O'', ''O'', ''X'', ''X''],
      current_player = ''X'', winner = None, game_over = True\<rparr>"

text \<open>
  Boards of the data model (nine cells over the three symbols), and the board read back
  from a nine-character key.
\<close>

definition valid_board :: "string list \<Rightarrow> bool" where
  "valid_board b \<longleftrightarrow> length b = 9 \<and> set b \<subseteq> {'' '', ''X'', ''O''}"

definition board_of_key :: "string \<Rightarrow> string list" where
  "board_of_key k = map (\<lambda>c. [c]) k"

text \<open>
  What the tables hold for a key, an absent key reading as the default; the key of the
  board that results from a hypothetical move; the state of the exploitation scan of
  \<open>choose_action\<close> when its loop ends.
\<close>

definition value_of :: "SimpleAIAgent \<Rightarrow> string \<Rightarrow> pyfloat" where
  "value_of a k = (case state_values a k of None \<Rightarrow> Finite 0 | Some v \<Rightarrow> v)"

definition visits_of :: "SimpleAIAgent \<Rightarrow> string \<Rightarrow> int" where
  "visits_of a k = (case state_visits a k of None \<Rightarrow> 0 | Some n \<Rightarrow> n)"

definition next_state_key :: "TicTacToeGame \<Rightarrow> string \<Rightarrow> int \<Rightarrow> string" where
  "next_state_key g player move = concat ((board g)[nat move := player])"

definition scan_result :: "SimpleAIAgent \<Rightarrow> TicTacToeGame \<Rightarrow> string \<Rightarrow> scan_state" where
  "scan_result a g player =
     scan_moves 0 player (available_moves g)
       \<lparr>store = [board g], table = state_values a, best_value = NegInf, best_moves = []\<rparr>"

text \<open>
  The measure that decreases along the inner loop of \<open>train_agent\<close>; the key of the empty
  board; the number of episodes the \<open>for\<close> loop executes on a list of episode numbers.
\<close>

definition loop_measure :: "TicTacToeGame \<Rightarrow> nat" where
  "loop_measure g =
     (if game_over g then 0
      else 1 + 2 * count_list (board g) '' '' + (if current_player g = '' '' then 1 else 0))"

definition empty_key :: string where
  "empty_key = replicate 9 (CHR '' '')"

fun episodes_run :: "nat list \<Rightarrow> nat" where
  "episodes_run [] = 0"
| "episodes_run (episode # rest) =
     (if (episode + 1) mod 1000 = 0 then 1 else 1 + episodes_run rest)"

section \<open>The rule engine\<close>

lemma line_eq_in_range:
  "i < length b \<Longrightarrow> j < length b \<Longrightarrow> k < length b \<Longrightarrow>
   line_eq b i j k p = Inr (b ! i = p \<and> b ! j = p \<and> b ! k = p)"
  by (auto simp: line_eq_def getitem_def)

lemma row_triples: "map (\<lambda>i. (i, i + 1, i + 2)) [0, 3, 6] = [(0, 1, 2), (3, 4, 5), (6, 7, 8::nat)]"
  by simp

lemma upt_three: "[0..<3] = [0, 1, 2]"
  by (simp add: upt_rec)

lemma column_triples: "map (\<lambda>i. (i, i + 3, i + 6)) [0..<3] = [(0, 3, 6), (1, 4, 7), (2, 5, 8::nat)]"
  by (simp add: upt_three)

lemma check_win_nine:
  "length (board g) = 9 \<Longrightarrow> check_win g p = Inr (wins (board g) p)"
  unfolding check_win_def row_triples column_triples
  by (simp add: line_eq_in_range wins_def)

lemma reset_eq:
  "reset g = (''         '',
     \<lparr>board = ['' '', '' '', '' '', '' '', '' '', '' '', '' '', '' '', '' ''],
      current_player = ''X'', winner = None, game_over = False\<rparr>)"
  by (cases g) (simp add: reset_def Let_def get_state_def upt_rec)

lemma init_eq: "TicTacToeGame_init =
     \<lparr>board = ['' '', '' '', '' '', '' '', '' '', '' '', '' '', '' '', '' ''],
      current_player = ''X'', winner = None, game_over = False\<rparr>"
  by (simp add: TicTacToeGame_init_def reset_eq)

lemma avail_init: "available_moves TicTacToeGame_init = [0, 1, 2, 3, 4, 5, 6, 7, 8]"
  by (simp add: init_eq available_moves_def)

lemma set_available_moves:
  "set (available_moves g) = {int i | i. i < length (board g) \<and> board g ! i = '' ''}"
  by (auto simp: available_moves_def in_set_enumerate_eq image_iff)

lemma sorted_available_moves: "sorted_wrt (<) (available_moves g)"
proof -
  have "sorted_wrt (<) (map fst (enumerate 0 (board g)))"
    by simp
  then have "sorted_wrt (\<lambda>x y. fst x < fst y) (enumerate 0 (board g))"
    by (simp only: sorted_wrt_map)
  then have "sorted_wrt (\<lambda>x y. fst x < fst y)
               (filter (\<lambda>(i, spot). spot = '' '') (enumerate 0 (board g)))"
    by (rule sorted_wrt_filter)
  then show ?thesis
    by (simp add: available_moves_def sorted_wrt_map case_prod_beta)
qed

lemma wins_update_other:
  assumes "length b = 9" and "q \<noteq> p" and "wins (b[i := p]) q"
  shows "wins b q"
proof -
  have keep: "b ! j = q" if "j < 9" and "b[i := p] ! j = q" for j
    using that assms(1,2) by (cases "i = j") auto
  from assms(3) show ?thesis
    unfolding wins_def by (elim disjE conjE) (simp_all add: keep)
qed

lemma wins_line: "wins b m \<Longrightarrow> \<exists>line\<in>set win_lines. \<forall>i\<in>set line. b ! i = m"
  unfolding wins_def win_lines_def by (elim disjE conjE) simp_all

lemma game_inv_reset: "game_inv (snd (reset g))"
  by (simp add: reset_eq game_inv_def wins_def)

lemma make_move_illegal:
  "position \<notin> set (available_moves g) \<Longrightarrow> make_move position pl g = Inr (False, g)"
  by (simp add: make_move_def)

lemma make_move_available:
  assumes "position \<in> set (available_moves g)" and "length (board g) = 9"
  shows "make_move position mark g =
     (let player = (case mark of None \<Rightarrow> current_player g | Some p \<Rightarrow> p);
          b1 = (board g)[nat position := player] in
      Inr (True,
        if wins b1 player then g\<lparr>board := b1, winner := Some player, game_over := True\<rparr>
        else if '' '' \<notin> set b1 \<and> winner g = None then g\<lparr>board := b1, game_over := True\<rparr>
        else g\<lparr>board := b1,
                current_player := (if current_player g = ''X'' then ''O'' else ''X'')\<rparr>))"
  using assms by (simp add: make_move_def Let_def check_win_nine check_tie_def)

lemma make_move_board:
  assumes "position \<in> set (available_moves g)" and "length (board g) = 9"
    and "make_move position None g = Inr (ok, g2)"
  shows "ok \<and> board g2 = (board g)[nat position := current_player g]"
  using assms(3) unfolding make_move_available[OF assms(1,2)] Let_def
  by (auto split: if_splits)

lemma game_inv_make_move:
  assumes inv: "game_inv g" and live: "\<not> game_over g"
    and mark: "mark = None \<or> mark = Some (current_player g)"
    and mv: "make_move position mark g = Inr (True, g')"
  shows "game_inv g'"
proof -
  have avail: "position \<in> set (available_moves g)"
    using mv by (cases "position \<in> set (available_moves g)") (simp_all add: make_move_def)
  then obtain i where i: "position = int i" "i < length (board g)" "board g ! i = '' ''"
    by (auto simp: set_available_moves)
  have len: "length (board g) = 9"
    using inv by (simp add: game_inv_def)
  have np: "nat position = i"
    by (simp add: i)
  define p where "p = current_player g"
  define b1 where "b1 = (board g)[i := p]"
  have pl: "(case mark of None \<Rightarrow> current_player g | Some p \<Rightarrow> p) = p"
    using mark by (auto simp: p_def)
  have p: "p = ''X'' \<or> p = ''O''"
    using inv by (auto simp: game_inv_def p_def)
  have cells: "set b1 \<subseteq> {'' '', ''X'', ''O''}"
  proof -
    have "set b1 \<subseteq> insert p (set (board g))"
      unfolding b1_def by (rule set_update_subset_insert)
    then show ?thesis using inv p by (auto simp: game_inv_def)
  qed
  have len1: "length b1 = 9"
    by (simp add: b1_def len)
  have nowin: "\<not> wins (board g) ''X''" "\<not> wins (board g) ''O''" and w0: "winner g = None"
    using inv live by (auto simp: game_inv_def)
  have other: "\<not> wins b1 q" if "q \<noteq> p" "q = ''X'' \<or> q = ''O''" for q
    using wins_update_other[OF len that(1), of i] that(2) nowin by (auto simp: b1_def)
  have g': "g' =
      (if wins b1 p then g\<lparr>board := b1, winner := Some p, game_over := True\<rparr>
        else if '' '' \<notin> set b1 \<and> winner g = None then g\<lparr>board := b1, game_over := True\<rparr>
        else g\<lparr>board := b1,
                current_player := (if current_player g = ''X'' then ''O'' else ''X'')\<rparr>)"
    using mv unfolding make_move_available[OF avail len] Let_def pl np b1_def
    by simp
  have cpl: "current_player g \<in> {''X'', ''O''}"
    using p by (simp add: p_def)
  have notboth: "\<not> (wins b1 ''X'' \<and> wins b1 ''O'')"
    using other[of "''X''"] other[of "''O''"] p by fastforce
  consider (win) "wins b1 p"
    | (tie) "\<not> wins b1 p" "'' '' \<notin> set b1"
    | (go) "\<not> wins b1 p" "'' '' \<in> set b1"
    by blast
  then show ?thesis
  proof cases
    case win
    then have "g' = g\<lparr>board := b1, winner := Some p, game_over := True\<rparr>"
      using g' by simp
    moreover have "p \<in> {''X'', ''O''}"
      using p by simp
    ultimately show ?thesis
      using len1 cells cpl notboth win by (simp add: game_inv_def)
  next
    case tie
    then have "g' = g\<lparr>board := b1, game_over := True\<rparr>"
      using g' w0 by simp
    then show ?thesis
      using len1 cells cpl notboth w0 by (simp add: game_inv_def)
  next
    case go
    then have "g' = g\<lparr>board := b1,
        current_player := (if current_player g = ''X'' then ''O'' else ''X'')\<rparr>"
      using g' by simp
    moreover have "\<not> wins b1 ''X''" "\<not> wins b1 ''O''"
      using other[of "''X''"] other[of "''O''"] p go(1) by fastforce+
    ultimately show ?thesis
      using len1 cells w0 go(2) by (simp add: game_inv_def)
  qed
qed

lemma game_inv_legal_play:
  "game_inv g \<Longrightarrow> legal_play moves g = Some g' \<Longrightarrow> game_inv g'"
proof (induction moves arbitrary: g)
  case Nil
  then show ?case by simp
next
  case (Cons m moves)
  obtain position mark where m: "m = (position, mark)"
    by (cases m)
  from Cons.prems(2) obtain g1 where
    live: "\<not> game_over g" and mark: "mark = None \<or> mark = Some (current_player g)"
    and mv: "make_move position mark g = Inr (True, g1)" and rest: "legal_play moves g1 = Some g'"
    by (auto simp: m split: if_splits sum.splits bool.splits prod.splits)
  from game_inv_make_move[OF Cons.prems(1) live mark mv] rest show ?case
    by (rule Cons.IH)
qed

lemmas engine_eval =
  make_move_def available_moves_def check_win_def line_eq_def getitem_def check_tie_def
  row_triples column_triples Let_def

text \<open>
  Claim C3. A position that is not an available move (negative, beyond the board, or an
  occupied cell) makes \<open>make_move\<close> return \<open>False\<close> as an ordinary result, and the
  session (board, current player, winner, game-over flag) is exactly the one before.
\<close>

theorem make_move_rejects_illegal:
  assumes "position < 0 \<or> int (length (board g)) \<le> position \<or> board g ! nat position \<noteq> '' ''"
  shows "position \<notin> set (available_moves g) \<and> make_move position mark g = Inr (False, g)"
proof -
  have "position \<notin> set (available_moves g)"
    using assms by (auto simp: set_available_moves)
  then show ?thesis
    by (simp add: make_move_illegal)
qed

theorem make_move_rejects_illegal_witness:
  "make_move 0 None top_row_won = Inr (False, top_row_won) \<and>
   make_move 9 (Some ''O'') top_row_won = Inr (False, top_row_won) \<and>
   make_move (- 1) None top_row_won = Inr (False, top_row_won)"
  using make_move_rejects_illegal[of 0 top_row_won None]
    make_move_rejects_illegal[of 9 top_row_won "Some ''O''"]
    make_move_rejects_illegal[of "- 1" top_row_won None]
  by (simp add: top_row_won_def)

text \<open>
  Claim C7. After \<open>reset\<close> the nine cells are blank, \<open>X\<close> is to move, there is no winner
  and the game is not over; \<open>reset\<close> returns the key of that board; the available moves of
  the fresh session are 0 to 8 in ascending order; on every board \<open>available_moves\<close> lists
  exactly the indices of the blank cells, in ascending order.
\<close>

theorem reset_fresh_session:
  "board (snd (reset g)) = replicate 9 '' '' \<and>
   current_player (snd (reset g)) = ''X'' \<and>
   winner (snd (reset g)) = None \<and>
   \<not> game_over (snd (reset g)) \<and>
   fst (reset g) = get_state (snd (reset g)) \<and>
   fst (reset g) = replicate 9 (CHR '' '') \<and>
   available_moves (snd (reset g)) = [0, 1, 2, 3, 4, 5, 6, 7, 8] \<and>
   sorted_wrt (<) (available_moves h) \<and>
   set (available_moves h) = {int i | i. i < length (board h) \<and> board h ! i = '' ''}"
  by (simp add: reset_eq get_state_def sorted_available_moves set_available_moves
      numeral_eq_Suc)
     (simp add: available_moves_def)

text \<open>
  Claim C8. From a fresh session the moves \<open>X\<close> at 0, \<open>O\<close> at 3, \<open>X\<close> at 1, \<open>O\<close> at 4,
  \<open>X\<close> at 2 are all accepted and end with winner \<open>X\<close> and the game over, while
  \<open>available_moves\<close> still lists the four untouched cells 5, 6, 7, 8.
\<close>

theorem top_row_scenario:
  "legal_play [(0, Some ''X''), (3, Some ''O''), (1, Some ''X''), (4, Some ''O''), (2, Some ''X'')]
     (snd (reset g)) = Some top_row_won \<and>
   winner top_row_won = Some ''X'' \<and> game_over top_row_won \<and>
   available_moves top_row_won = [5, 6, 7, 8]"
  by (simp add: reset_eq top_row_won_def engine_eval)

text \<open>
  Claim C5. In every session reached from \<open>reset\<close> by legal play, \<open>check_win\<close> returns
  (without error) and is true for at most one of the marks \<open>X\<close> and \<open>O\<close>; when \<open>winner\<close> is
  set, it is one of the two marks, \<open>check_win\<close> is true for it, and it occupies the three
  cells of one of the eight winning lines.
\<close>

theorem legal_play_single_winner:
  assumes "legal_play moves (snd (reset g0)) = Some g"
  shows "(\<exists>wx wo. check_win g ''X'' = Inr wx \<and> check_win g ''O'' = Inr wo \<and> \<not> (wx \<and> wo)) \<and>
         (\<forall>m. winner g = Some m \<longrightarrow>
            (m = ''X'' \<or> m = ''O'') \<and> check_win g m = Inr True \<and>
            (\<exists>line\<in>set win_lines. \<forall>i\<in>set line. board g ! i = m))"
proof -
  have inv: "game_inv g"
    using game_inv_reset assms by (rule game_inv_legal_play)
  then have len: "length (board g) = 9"
    by (simp add: game_inv_def)
  have "\<not> (wins (board g) ''X'' \<and> wins (board g) ''O'')"
    using inv by (simp add: game_inv_def)
  then have one: "\<exists>wx wo. check_win g ''X'' = Inr wx \<and> check_win g ''O'' = Inr wo \<and> \<not> (wx \<and> wo)"
    by (simp add: check_win_nine[OF len])
  have "(m = ''X'' \<or> m = ''O'') \<and> check_win g m = Inr True \<and>
        (\<exists>line\<in>set win_lines. \<forall>i\<in>set line. board g ! i = m)"
    if "winner g = Some m" for m
  proof -
    from inv that have "m \<in> {''X'', ''O''}" and w: "wins (board g) m"
      by (simp_all add: game_inv_def)
    then show ?thesis
      using wins_line[OF w] by (simp add: check_win_nine[OF len])
  qed
  with one show ?thesis
    by blast
qed

theorem legal_play_single_winner_witness:
  "legal_play [(0, None), (3, None), (1, None), (4, None), (2, None)]
     (snd (reset TicTacToeGame_init)) = Some top_row_won \<and>
   check_win top_row_won ''X'' = Inr True \<and>
   check_win top_row_won ''O'' = Inr False \<and>
   winner top_row_won = Some ''X'' \<and>
   (\<exists>line\<in>set win_lines. \<forall>i\<in>set line. board top_row_won ! i = ''X'')"
proof -
  have play: "legal_play [(0, None), (3, None), (1, None), (4, None), (2, None)]
     (snd (reset TicTacToeGame_init)) = Some top_row_won"
    by (simp add: reset_eq top_row_won_def engine_eval)
  have x: "check_win top_row_won ''X'' = Inr True"
    by (simp add: top_row_won_def engine_eval)
  have o: "check_win top_row_won ''O'' = Inr False"
    by (simp add: top_row_won_def engine_eval)
  have w: "winner top_row_won = Some ''X''"
    by (simp add: top_row_won_def)
  from legal_play_single_winner[OF play] w x o play show ?thesis
    by blast
qed

text \<open>
  Claim C9. \<open>make_move\<close> never consults \<open>game_over\<close>. On every nine-cell board, whatever
  \<open>game_over\<close> and \<open>winner\<close> are, a call at an available position is accepted and writes
  the mark into that cell (so the board changes whenever the mark is not the blank), and
  sets \<open>winner\<close> to that mark, replacing any earlier winner, when the mark then holds a
  line; a call at any other position returns \<open>False\<close> with the session unchanged, and
  these are the only two outcomes. On the session where \<open>X\<close> has already won the top row,
  \<open>make_move(5, 'O')\<close> is accepted, changes the board, and replaces the winner \<open>X\<close> by \<open>O\<close>.
\<close>

theorem make_move_ignores_game_over:
  "(length (board g) = 9 \<longrightarrow>
      ((\<exists>g'. make_move position mark g = Inr (True, g')) \<longleftrightarrow>
       position \<in> set (available_moves g))) \<and>
   (make_move position mark g = Inr (False, g) \<longleftrightarrow> position \<notin> set (available_moves g)) \<and>
   (length (board g) = 9 \<and> position \<in> set (available_moves g) \<longrightarrow>
      (\<exists>g'. make_move position mark g = Inr (True, g') \<and>
         board g' = (board g)[nat position :=
                       (case mark of None \<Rightarrow> current_player g | Some p \<Rightarrow> p)] \<and>
         board g' ! nat position = (case mark of None \<Rightarrow> current_player g | Some p \<Rightarrow> p) \<and>
         board g ! nat position = '' '' \<and>
         ((case mark of None \<Rightarrow> current_player g | Some p \<Rightarrow> p) \<noteq> '' '' \<longrightarrow>
            board g' \<noteq> board g) \<and>
         (check_win g' (case mark of None \<Rightarrow> current_player g | Some p \<Rightarrow> p) = Inr True \<longrightarrow>
            winner g' = Some (case mark of None \<Rightarrow> current_player g | Some p \<Rightarrow> p) \<and>
            game_over g'))) \<and>
   game_over top_row_won \<and> winner top_row_won = Some ''X'' \<and>
   make_move 5 (Some ''O'') top_row_won =
     Inr (True, \<lparr>board = [''X'', ''X'', ''X'', ''O'', ''O'', ''O'', '' '', '' '', '' ''],
                 current_player = ''X'', winner = Some ''O'', game_over = True\<rparr>)"
proof -
  define player where "player = (case mark of None \<Rightarrow> current_player g | Some p \<Rightarrow> p)"
  have a: "(\<exists>g'. make_move position mark g = Inr (True, g')) \<longleftrightarrow>
           position \<in> set (available_moves g)" if "length (board g) = 9"
  proof (cases "position \<in> set (available_moves g)")
    case True
    then show ?thesis
      by (simp add: make_move_available[OF True that] Let_def)
  next
    case False
    then show ?thesis
      by (simp add: make_move_illegal)
  qed
  have b: "make_move position mark g = Inr (False, g) \<longleftrightarrow> position \<notin> set (available_moves g)"
    by (cases "position \<in> set (available_moves g)")
       (auto simp: make_move_def Let_def split: sum.splits)
  have w: "\<exists>g'. make_move position mark g = Inr (True, g') \<and>
         board g' = (board g)[nat position := player] \<and>
         board g' ! nat position = player \<and>
         board g ! nat position = '' '' \<and>
         (player \<noteq> '' '' \<longrightarrow> board g' \<noteq> board g) \<and>
         (check_win g' player = Inr True \<longrightarrow> winner g' = Some player \<and> game_over g')"
    if len: "length (board g) = 9" and av: "position \<in> set (available_moves g)"
  proof -
    from av obtain i where i: "position = int i" "i < length (board g)" "board g ! i = '' ''"
      by (auto simp: set_available_moves)
    define b1 where "b1 = (board g)[nat position := player]"
    define g' where "g' =
      (if wins b1 player then g\<lparr>board := b1, winner := Some player, game_over := True\<rparr>
       else if '' '' \<notin> set b1 \<and> winner g = None then g\<lparr>board := b1, game_over := True\<rparr>
       else g\<lparr>board := b1,
               current_player := (if current_player g = ''X'' then ''O'' else ''X'')\<rparr>)"
    have run: "make_move position mark g = Inr (True, g')"
      unfolding make_move_available[OF av len] Let_def player_def[symmetric] b1_def[symmetric]
        g'_def by simp
    have bd: "board g' = b1"
      by (simp add: g'_def)
    have cell: "b1 ! nat position = player"
      using i by (simp add: b1_def)
    have "length b1 = 9"
      using len by (simp add: b1_def)
    then have cw: "check_win g' player = Inr (wins b1 player)"
      using check_win_nine[of g' player] by (simp add: bd)
    have won: "winner g' = Some player \<and> game_over g'" if "wins b1 player"
      using that by (simp add: g'_def)
    have "board g' \<noteq> board g" if "player \<noteq> '' ''"
      using that cell i by (auto simp: bd)
    with run bd cell cw won i show ?thesis
      by (auto simp: b1_def)
  qed
  have c: "make_move 5 (Some ''O'') top_row_won =
     Inr (True, \<lparr>board = [''X'', ''X'', ''X'', ''O'', ''O'', ''O'', '' '', '' '', '' ''],
                 current_player = ''X'', winner = Some ''O'', game_over = True\<rparr>)"
    by (simp add: top_row_won_def engine_eval)
  have d: "game_over top_row_won \<and> winner top_row_won = Some ''X''"
    by (simp add: top_row_won_def)
  from a b w[unfolded player_def] c d show ?thesis
    by blast
qed

theorem make_move_ignores_game_over_witness:
  "length (board top_row_won) = 9 \<and> game_over top_row_won \<and>
   6 \<in> set (available_moves top_row_won) \<and>
   (\<exists>g'. make_move 6 None top_row_won = Inr (True, g') \<and>
      board g' = [''X'', ''X'', ''X'', ''O'', ''O'', '' '', ''X'', '' '', '' ''] \<and>
      board g' \<noteq> board top_row_won \<and> winner g' = Some ''X'' \<and> game_over g')"
proof -
  have len: "length (board top_row_won) = 9"
    by (simp add: top_row_won_def)
  have av: "6 \<in> set (available_moves top_row_won)"
    by (simp add: top_row_won_def available_moves_def)
  from make_move_ignores_game_over[of top_row_won 6 None] len av
  obtain g' where g': "make_move 6 None top_row_won = Inr (True, g')"
    "board g' = (board top_row_won)[nat 6 := current_player top_row_won]"
    "current_player top_row_won \<noteq> '' '' \<longrightarrow> board g' \<noteq> board top_row_won"
    "check_win g' (current_player top_row_won) = Inr True \<longrightarrow>
       winner g' = Some (current_player top_row_won) \<and> game_over g'"
    by auto
  have bd: "board g' = [''X'', ''X'', ''X'', ''O'', ''O'', '' '', ''X'', '' '', '' '']"
    using g'(2) by (simp add: top_row_won_def)
  have "check_win g' ''X'' = Inr True"
    by (simp add: check_win_def line_eq_def getitem_def row_triples column_triples bd)
  with g' bd len av show ?thesis
    by (auto simp: top_row_won_def)
qed

lemma concat_singletons:
  "\<forall>c\<in>set b. length c = 1 \<Longrightarrow> map (\<lambda>c. [c]) (concat b) = b"
proof (induction b)
  case Nil
  then show ?case by simp
next
  case (Cons c b)
  then obtain x where "c = [x]"
    by (cases c) auto
  with Cons show ?case by simp
qed

lemma valid_board_cells: "valid_board b \<Longrightarrow> \<forall>c\<in>set b. length c = 1"
  by (auto simp: valid_board_def)

lemma length_concat_singletons:
  "\<forall>c\<in>set b. length c = 1 \<Longrightarrow> length (concat b) = length b"
  by (induction b) auto

lemma nth_concat_singletons:
  "\<forall>c\<in>set b. length c = 1 \<Longrightarrow> i < length b \<Longrightarrow> [concat b ! i] = b ! i"
proof -
  assume a: "\<forall>c\<in>set b. length c = 1" and i: "i < length b"
  have "map (\<lambda>c. [c]) (concat b) ! i = b ! i"
    by (simp add: concat_singletons[OF a])
  then show ?thesis
    using i by (simp add: length_concat_singletons[OF a])
qed

lemma blank_board_key:
  assumes "length b = 9" and "set b \<subseteq> {'' '', ''X'', ''O''}"
  shows "concat b = empty_key \<longleftrightarrow> b = replicate 9 '' ''"
proof
  assume "concat b = empty_key"
  moreover have "map (\<lambda>c. [c]) (concat b) = b"
    using assms(2) by (intro concat_singletons) auto
  ultimately show "b = replicate 9 '' ''"
    by (simp add: empty_key_def numeral_eq_Suc)
next
  assume "b = replicate 9 '' ''"
  then show "concat b = empty_key"
    by (simp add: empty_key_def numeral_eq_Suc)
qed

text \<open>
  Claim C10. On nine-cell boards over the three symbols, \<open>get_state\<close> is the
  nine-character string of the cells in index order; the board is recovered from its key,
  so two boards with the same key are equal; and every nine-character string over the
  three symbols is the key of its own board.
\<close>

theorem get_state_roundtrip:
  "(valid_board (board g) \<longrightarrow>
      length (get_state g) = 9 \<and>
      set (get_state g) \<subseteq> {CHR '' '', CHR ''X'', CHR ''O''} \<and>
      (\<forall>i<9. [get_state g ! i] = board g ! i) \<and>
      board_of_key (get_state g) = board g) \<and>
   (valid_board (board g) \<and> valid_board (board h) \<and> get_state g = get_state h \<longrightarrow>
      board g = board h) \<and>
   (length k = 9 \<and> set k \<subseteq> {CHR '' '', CHR ''X'', CHR ''O''} \<longrightarrow>
      valid_board (board_of_key k) \<and> get_state (g\<lparr>board := board_of_key k\<rparr>) = k)"
proof -
  have recover: "board_of_key (get_state g) = board g" if "valid_board (board g)" for g
    using concat_singletons[OF valid_board_cells[OF that]]
    by (simp add: board_of_key_def get_state_def)
  have p1: "length (get_state g) = 9 \<and>
      set (get_state g) \<subseteq> {CHR '' '', CHR ''X'', CHR ''O''} \<and>
      (\<forall>i<9. [get_state g ! i] = board g ! i)" if v: "valid_board (board g)"
  proof -
    note c = valid_board_cells[OF v]
    have "length (get_state g) = 9"
      using length_concat_singletons[OF c] v by (simp add: get_state_def valid_board_def)
    moreover have "set (get_state g) \<subseteq> {CHR '' '', CHR ''X'', CHR ''O''}"
      using v by (auto simp: get_state_def valid_board_def)
    moreover have "\<forall>i<9. [get_state g ! i] = board g ! i"
      using nth_concat_singletons[OF c] v by (simp add: get_state_def valid_board_def)
    ultimately show ?thesis by simp
  qed
  have p2: "board g = board h"
    if "valid_board (board g)" "valid_board (board h)" "get_state g = get_state h"
    using recover[OF that(1)] recover[OF that(2)] that(3) by simp
  have p3: "valid_board (board_of_key k) \<and> get_state (g\<lparr>board := board_of_key k\<rparr>) = k"
    if "length k = 9" "set k \<subseteq> {CHR '' '', CHR ''X'', CHR ''O''}"
  proof -
    have "concat (map (\<lambda>c. [c]) k) = k"
      by (induction k) auto
    moreover have "valid_board (board_of_key k)"
      using that by (auto simp: valid_board_def board_of_key_def)
    ultimately show ?thesis
      by (simp add: get_state_def board_of_key_def)
  qed
  show ?thesis
    using recover p1 p2 p3 by blast
qed

theorem get_state_roundtrip_witness:
  "valid_board (board top_row_won) \<and> valid_board (board TicTacToeGame_init) \<and>
   get_state top_row_won = ''XXXOO    '' \<and>
   board_of_key ''XXXOO    '' = board top_row_won \<and>
   get_state top_row_won \<noteq> get_state TicTacToeGame_init \<and>
   get_state (top_row_won\<lparr>board := board_of_key ''XXXOO    ''\<rparr>) = ''XXXOO    ''"
proof -
  have v: "valid_board (board top_row_won)" "valid_board (board TicTacToeGame_init)"
    by (simp_all add: valid_board_def top_row_won_def TicTacToeGame_init_def reset_eq)
  have k: "get_state top_row_won = ''XXXOO    ''"
    by (simp add: get_state_def top_row_won_def)
  have ne: "board top_row_won \<noteq> board TicTacToeGame_init"
    by (simp add: top_row_won_def TicTacToeGame_init_def reset_eq)
  have kk: "length ''XXXOO    '' = 9 \<and> set ''XXXOO    '' \<subseteq> {CHR '' '', CHR ''X'', CHR ''O''}"
    by simp
  have kb: "get_state (top_row_won\<lparr>board := board_of_key ''XXXOO    ''\<rparr>) = ''XXXOO    ''"
    using get_state_roundtrip[of top_row_won TicTacToeGame_init "''XXXOO    ''"] kk by blast
  from get_state_roundtrip[of top_row_won TicTacToeGame_init "''XXXOO    ''"] v k ne kb
  show ?thesis
    by auto
qed

section \<open>Float arithmetic\<close>

lemma pow2_powi: "pow2 k = 2 powi k"
  by (simp add: pow2_def power_int_def inverse_eq_divide power_one_over)

lemma pow2_pos [simp]: "0 < pow2 k"
  by (simp add: pow2_powi)

lemma pow2_add: "pow2 (a + b) = pow2 a * pow2 b"
  by (simp add: pow2_powi power_int_add)

lemma pow2_mono: "a \<le> b \<Longrightarrow> pow2 a \<le> pow2 b"
  by (simp add: pow2_powi power_int_increasing)

lemma pow2_strict_mono: "a < b \<Longrightarrow> pow2 a < pow2 b"
  by (simp add: pow2_powi power_int_strict_increasing)

lemma pow2_nat: "0 \<le> k \<Longrightarrow> pow2 k = 2 ^ nat k"
  by (simp add: pow2_def)

lemma pow2_nz [simp]: "pow2 k \<noteq> 0"
  using pow2_pos[of k] by linarith

lemma find_upto_Some:
  assumes "List.find P [lo..hi] = Some q"
  shows "lo \<le> q \<and> q \<le> hi \<and> P q \<and> (\<forall>j. lo \<le> j \<and> j < q \<longrightarrow> \<not> P j)"
proof -
  from assms obtain i where i: "i < length [lo..hi]" "P ([lo..hi] ! i)" "q = [lo..hi] ! i"
    "\<forall>j<i. \<not> P ([lo..hi] ! j)"
    unfolding find_Some_iff by blast
  from i(1) have bound: "lo + int i \<le> hi"
    by simp
  then have q: "q = lo + int i"
    using i(3) by simp
  have "\<not> P j" if "lo \<le> j" "j < q" for j
  proof -
    define n where "n = nat (j - lo)"
    have n: "n < i" "j = lo + int n"
      using that q by (simp_all add: n_def)
    then have "[lo..hi] ! n = j"
      using bound by simp
    with i(4) n(1) show ?thesis
      by metis
  qed
  then show ?thesis
    using q bound i(2,3) by simp
qed

lemma quantum_Some:
  assumes "quantum x = Some q"
  shows "- 1074 \<le> q" and "q \<le> 971" and "\<bar>x\<bar> < pow2 (q + 53)"
    and "q = - 1074 \<or> pow2 (q + 52) \<le> \<bar>x\<bar>"
proof -
  note f = find_upto_Some[OF assms[unfolded quantum_def]]
  show "- 1074 \<le> q" "q \<le> 971" "\<bar>x\<bar> < pow2 (q + 53)"
    using f by simp_all
  show "q = - 1074 \<or> pow2 (q + 52) \<le> \<bar>x\<bar>"
  proof (cases "q = - 1074")
    case True
    then show ?thesis by simp
  next
    case False
    then have "- 1074 \<le> q - 1" "q - 1 < q"
      using f by simp_all
    with f have "\<not> \<bar>x\<bar> < pow2 (q - 1 + 53)"
      by blast
    then show ?thesis
      by (simp add: algebra_simps)
  qed
qed

lemma quantum_None: "quantum x = None \<Longrightarrow> pow2 1024 \<le> \<bar>x\<bar>"
proof -
  assume "quantum x = None"
  moreover have "(971::int) \<in> set [- 1074..971]"
    unfolding set_upto by simp
  ultimately have "\<not> \<bar>x\<bar> < pow2 (971 + 53)"
    unfolding quantum_def find_None_iff by blast
  then show ?thesis by simp
qed

lemma quantum_ex: "\<bar>x\<bar> < pow2 1024 \<Longrightarrow> \<exists>q. quantum x = Some q"
  using quantum_None[of x] by (cases "quantum x") auto

lemma rhe_ge: "of_int k \<le> z \<Longrightarrow> k \<le> round_half_even z"
proof -
  assume "of_int k \<le> z"
  then have "k \<le> \<lfloor>z\<rfloor>"
    by (simp add: le_floor_iff)
  then show ?thesis
    by (auto simp: round_half_even_def Let_def)
qed

lemma rhe_le: "z \<le> of_int k \<Longrightarrow> round_half_even z \<le> k"
proof -
  assume a: "z \<le> of_int k"
  show ?thesis
  proof (cases "z = of_int k")
    case True
    then show ?thesis by (simp add: round_half_even_def)
  next
    case False
    with a have "z < of_int k" by simp
    then have "\<lfloor>z\<rfloor> < k"
      by (simp add: floor_less_iff)
    then show ?thesis
      by (auto simp: round_half_even_def Let_def)
  qed
qed

lemma rhe_int [simp]: "round_half_even (of_int k) = k"
  by (simp add: round_half_even_def)

lemma pow2_shift: "pow2 (q + int n) = 2 ^ n * pow2 q"
proof -
  have "pow2 (int n) = 2 ^ n"
    by (simp add: pow2_def)
  then show ?thesis
    using pow2_add[of "int n" q] by (simp add: add.commute)
qed

lemma rhe_scaled_le:
  assumes "x \<le> pow2 (q + int n)"
  shows "of_int (round_half_even (x / pow2 q)) * pow2 q \<le> pow2 (q + int n)"
proof -
  have "x / pow2 q \<le> of_int (2 ^ n)"
    using assms by (simp add: pow2_shift divide_le_eq)
  then have "round_half_even (x / pow2 q) \<le> 2 ^ n"
    by (rule rhe_le)
  then have "real_of_int (round_half_even (x / pow2 q)) \<le> 2 ^ n"
    using of_int_le_iff[where 'a=real, of "round_half_even (x / pow2 q)" "2 ^ n"] by simp
  then have "of_int (round_half_even (x / pow2 q)) * pow2 q \<le> 2 ^ n * pow2 q"
    by (intro mult_right_mono) (simp_all add: less_imp_le)
  then show ?thesis
    by (simp add: pow2_shift)
qed

lemma rhe_scaled_ge:
  assumes "pow2 (q + int n) \<le> x"
  shows "pow2 (q + int n) \<le> of_int (round_half_even (x / pow2 q)) * pow2 q"
proof -
  have "of_int (2 ^ n) \<le> x / pow2 q"
    using assms by (simp add: pow2_shift le_divide_eq)
  then have "2 ^ n \<le> round_half_even (x / pow2 q)"
    by (rule rhe_ge)
  then have "2 ^ n \<le> real_of_int (round_half_even (x / pow2 q))"
    using of_int_le_iff[where 'a=real, of "2 ^ n" "round_half_even (x / pow2 q)"] by simp
  then have "2 ^ n * pow2 q \<le> of_int (round_half_even (x / pow2 q)) * pow2 q"
    by (intro mult_right_mono) (simp_all add: less_imp_le)
  then show ?thesis
    by (simp add: pow2_shift)
qed

lemma round64_range:
  assumes lo: "pow2 (- 1074) \<le> x" and hi: "x \<le> pow2 1023"
  shows "\<exists>d. round64 x = Finite d \<and> 0 < d"
proof -
  have xpos: "0 < x"
    using lo pow2_pos[of "- 1074"] by linarith
  have "x < pow2 1024"
    using hi pow2_strict_mono[of 1023 1024] by linarith
  then obtain q where q: "quantum x = Some q"
    using quantum_ex[of x] xpos by auto
  note qs = quantum_Some[OF q]
  define y where "y = of_int (round_half_even (x / pow2 q)) * pow2 q"
  have "pow2 q \<le> x"
  proof (cases "q = - 1074")
    case True
    then show ?thesis using lo by simp
  next
    case False
    then have "pow2 (q + 52) \<le> x"
      using qs(4) xpos by simp
    moreover have "pow2 q \<le> pow2 (q + 52)"
      by (rule pow2_mono) simp
    ultimately show ?thesis by linarith
  qed
  then have "pow2 q \<le> y"
    using rhe_scaled_ge[of q 0 x] by (simp add: y_def)
  then have ypos: "0 < y"
    using pow2_pos[of q] by linarith
  have "y \<le> pow2 1023"
  proof (cases "q = 971")
    case True
    then have "x \<le> pow2 (q + int 52)"
      using hi by simp
    from rhe_scaled_le[OF this] show ?thesis
      using True by (simp add: y_def)
  next
    case False
    then have q970: "q + 53 \<le> 1023"
      using qs(2) by simp
    have "x \<le> pow2 (q + int 53)"
      using qs(3) xpos by simp
    from rhe_scaled_le[OF this] have "y \<le> pow2 (q + 53)"
      by (simp add: y_def)
    also have "\<dots> \<le> pow2 1023"
      using q970 by (rule pow2_mono)
    finally show ?thesis .
  qed
  then have "\<bar>y\<bar> < pow2 1024"
    using ypos pow2_strict_mono[of 1023 1024] by simp
  then show ?thesis
    using ypos unfolding round64_def q y_def[symmetric] by (simp add: Let_def y_def[symmetric])
qed

lemma truediv_ok:
  assumes "1 \<le> n" and "real_of_int n \<le> pow2 1023"
  shows "\<exists>s. truediv x n = Inr s"
proof -
  have "pow2 (- 1074) \<le> pow2 0"
    by (rule pow2_mono) simp
  also have "\<dots> \<le> real_of_int n"
    using assms(1) by (simp add: pow2_def)
  finally obtain d where "round64 (real_of_int n) = Finite d" "0 < d"
    using round64_range[OF _ assms(2)] by blast
  then show ?thesis
    by (simp add: truediv_def)
qed

section \<open>The learning agent\<close>

lemma scan_move_store:
  "store (scan_move live p m s) = store s @ [(store s ! live)[nat m := p]]"
  by (simp add: scan_move_def list_copy_def list_setitem_def Let_def split: prod.splits)

lemma scan_move_table:
  "table (scan_move live p m s) =
     snd (defaultdict_getitem (table s) (Finite 0) (concat ((store s ! live)[nat m := p])))"
  by (simp add: scan_move_def list_copy_def list_setitem_def Let_def split: prod.splits)

lemma scan_move_best_subset:
  "set (best_moves (scan_move live p m s)) \<subseteq> insert m (set (best_moves s))"
  by (auto simp: scan_move_def list_copy_def list_setitem_def Let_def split: prod.splits)

lemma scan_moves_live:
  "live < length (store s) \<Longrightarrow>
   live < length (store (scan_moves live p ms s)) \<and>
   store (scan_moves live p ms s) ! live = store s ! live"
  by (induction ms arbitrary: s) (simp_all add: scan_move_store nth_append)

lemma scan_moves_best_subset:
  "set (best_moves (scan_moves live p ms s)) \<subseteq> set ms \<union> set (best_moves s)"
proof (induction ms arbitrary: s)
  case Nil
  then show ?case by simp
next
  case (Cons m ms)
  show ?case
    using Cons.IH[of "scan_move live p m s"] scan_move_best_subset[of live p m s]
    by auto
qed

lemma defaultdict_getitem_lookup:
  "(case snd (defaultdict_getitem d z k) k' of None \<Rightarrow> z | Some v \<Rightarrow> v) =
   (case d k' of None \<Rightarrow> z | Some v \<Rightarrow> v)"
  by (auto simp: defaultdict_getitem_def split: option.splits)

lemma defaultdict_getitem_dom: "dom (snd (defaultdict_getitem d dflt k)) = insert k (dom d)"
  by (auto simp: defaultdict_getitem_def split: option.splits)

lemma defaultdict_getitem_present:
  "d k' = Some v \<Longrightarrow> snd (defaultdict_getitem d dflt k) k' = Some v"
  by (auto simp: defaultdict_getitem_def split: option.splits)

lemma scan_moves_table:
  "live < length (store s) \<Longrightarrow>
   dom (table (scan_moves live p ms s)) =
     dom (table s) \<union> (\<lambda>m. concat ((store s ! live)[nat m := p])) ` set ms \<and>
   (\<forall>k. (case table (scan_moves live p ms s) k of None \<Rightarrow> Finite 0 | Some v \<Rightarrow> v) =
        (case table s k of None \<Rightarrow> Finite 0 | Some v \<Rightarrow> v))"
proof (induction ms arbitrary: s)
  case Nil
  then show ?case by simp
next
  case (Cons m ms)
  let ?s1 = "scan_move live p m s"
  have live1: "live < length (store ?s1)" and same: "store ?s1 ! live = store s ! live"
    using Cons.prems by (simp_all add: scan_move_store nth_append)
  from Cons.IH[OF live1] show ?case
    by (simp add: same scan_move_table defaultdict_getitem_dom defaultdict_getitem_lookup)
qed

lemma scan_moves_present:
  "table s k = Some v \<Longrightarrow> table (scan_moves live p ms s) k = Some v"
  by (induction ms arbitrary: s) (simp_all add: scan_move_table defaultdict_getitem_present)

lemma choose_action_explore:
  "u < epsilon a \<Longrightarrow>
   choose_action a g player u r =
     (case random_choice r (available_moves g) of
        Inl e \<Rightarrow> Inl e | Inr move \<Rightarrow> Inr (move, a, g))"
  by (simp add: choose_action_def)

lemma scan_result_board: "g\<lparr>board := store (scan_result a g player) ! 0\<rparr> = g"
  using scan_moves_live[of 0 "\<lparr>store = [board g], table = state_values a,
      best_value = NegInf, best_moves = []\<rparr>" player "available_moves g"]
  by (simp add: scan_result_def)

lemma choose_action_exploit:
  "\<not> u < epsilon a \<Longrightarrow>
   choose_action a g player u r =
     (case random_choice r
             (if best_moves (scan_result a g player) = [] then available_moves g
              else best_moves (scan_result a g player)) of
        Inl e \<Rightarrow> Inl e
      | Inr move \<Rightarrow> Inr (move, a\<lparr>state_values := table (scan_result a g player)\<rparr>, g))"
  unfolding choose_action_def Let_def scan_result_def[symmetric] scan_result_board
  by simp

lemma scan_result_best:
  "set (best_moves (scan_result a g player)) \<subseteq> set (available_moves g)"
  using scan_moves_best_subset[of 0 player "available_moves g"
      "\<lparr>store = [board g], table = state_values a, best_value = NegInf, best_moves = []\<rparr>"]
  by (simp add: scan_result_def)

lemma scan_result_table:
  "dom (table (scan_result a g player)) =
     dom (state_values a) \<union> next_state_key g player ` set (available_moves g)"
  "(case table (scan_result a g player) k of None \<Rightarrow> Finite 0 | Some v \<Rightarrow> v) = value_of a k"
  "state_values a k = Some v \<Longrightarrow> table (scan_result a g player) k = Some v"
proof -
  let ?s0 = "\<lparr>store = [board g], table = state_values a, best_value = NegInf, best_moves = []\<rparr>"
  have "next_state_key g player = (\<lambda>m. concat ((store ?s0 ! 0)[nat m := player]))"
    by (simp add: next_state_key_def fun_eq_iff)
  then show "dom (table (scan_result a g player)) =
     dom (state_values a) \<union> next_state_key g player ` set (available_moves g)"
    using scan_moves_table[of 0 ?s0 player "available_moves g"]
    by (simp add: scan_result_def)
  show "(case table (scan_result a g player) k of None \<Rightarrow> Finite 0 | Some v \<Rightarrow> v) = value_of a k"
    using scan_moves_table[of 0 ?s0 player "available_moves g"]
    by (simp add: scan_result_def value_of_def)
  show "table (scan_result a g player) k = Some v" if "state_values a k = Some v"
    using scan_moves_present[where s="?s0" and k=k and v=v and live=0 and p=player
        and ms="available_moves g"] that
    by (simp add: scan_result_def)
qed

lemma random_choice_mem: "xs \<noteq> [] \<Longrightarrow> \<exists>x\<in>set xs. random_choice r xs = Inr x"
  by (simp add: random_choice_def)

lemma choose_action_empty:
  "available_moves g = [] \<Longrightarrow> choose_action a g player u r = Inl IndexError"
  using scan_result_best[of a g player]
  by (cases "u < epsilon a")
     (simp_all add: choose_action_explore choose_action_exploit random_choice_def)

lemma choose_action_nonempty:
  assumes "available_moves g \<noteq> []"
  shows "\<exists>move a'. choose_action a g player u r = Inr (move, a', g) \<and>
           move \<in> set (available_moves g) \<and>
           epsilon a' = epsilon a \<and> state_visits a' = state_visits a \<and>
           (\<forall>k. value_of a' k = value_of a k)"
proof (cases "u < epsilon a")
  case True
  from random_choice_mem[OF assms, of r] obtain x where
    "x \<in> set (available_moves g)" "random_choice r (available_moves g) = Inr x"
    by blast
  then show ?thesis
    by (simp add: choose_action_explore[OF True])
next
  case False
  let ?s = "scan_result a g player"
  define pool where
    "pool = (if best_moves ?s = [] then available_moves g else best_moves ?s)"
  have ne: "pool \<noteq> []" and sub: "set pool \<subseteq> set (available_moves g)"
    using assms scan_result_best[of a g player] by (auto simp: pool_def)
  from random_choice_mem[OF ne, of r] obtain x where
    x: "x \<in> set pool" "random_choice r pool = Inr x"
    by blast
  have vals: "value_of (a\<lparr>state_values := table ?s\<rparr>) k = value_of a k" for k
    using scan_result_table(2)[where a=a and g=g and player=player and k=k]
    by (simp add: value_of_def)
  from x sub have "x \<in> set (available_moves g)"
    by blast
  with x(2) vals show ?thesis
    unfolding choose_action_exploit[OF False] pool_def[symmetric] by simp
qed

lemma choose_action_Inr:
  assumes "choose_action a g player u r = Inr (move, a', g1)"
  shows "g1 = g \<and> move \<in> set (available_moves g)"
proof (cases "available_moves g = []")
  case True
  then show ?thesis
    using assms by (simp add: choose_action_empty)
next
  case False
  from choose_action_nonempty[OF False, of a player u r] assms show ?thesis
    by auto
qed

text \<open>
  Claim C2, as stated, fails: reading \<open>state_values[next_state]\<close> on a \<open>defaultdict\<close>
  inserts a missing key. With a new agent (\<open>epsilon = 0\<close>, empty tables) on a fresh session,
  the exploitation branch leaves an entry for the key \<open>"X        "\<close> that was not there before.
\<close>

theorem choose_action_inserts_keys:
  "\<not> (0::real) < epsilon (SimpleAIAgent_init 0) \<and>
   state_values (SimpleAIAgent_init 0) ''X        '' = None \<and>
   state_values
     (fst (snd (projr (choose_action (SimpleAIAgent_init 0) TicTacToeGame_init ''X'' 0 0))))
     ''X        '' = Some (Finite 0)"
  unfolding choose_action_def avail_init
  by (simp add: init_eq scan_move_def list_copy_def list_setitem_def defaultdict_getitem_def
      random_choice_def SimpleAIAgent_init_def Let_def)

text \<open>
  Claim C2, amended. The exploitation branch of \<open>choose_action\<close> leaves the session
  (its board included), the visit counts and \<open>epsilon\<close> unchanged, keeps every entry of the
  value table, and reads every key as before (an absent key as 0.0); the keys of the value
  table afterwards are the keys before together with the key of the next state of every
  available move, each inserted with the value 0.0 when it was absent.
\<close>

theorem choose_action_exploit_frame:
  assumes "\<not> u < epsilon a" and "choose_action a g player u r = Inr (move, a', g')"
  shows "g' = g \<and> state_visits a' = state_visits a \<and> epsilon a' = epsilon a \<and>
         (\<forall>k. value_of a' k = value_of a k) \<and>
         (\<forall>k v. state_values a k = Some v \<longrightarrow> state_values a' k = Some v) \<and>
         dom (state_values a') =
           dom (state_values a) \<union> next_state_key g player ` set (available_moves g)"
proof -
  from assms have a': "a' = a\<lparr>state_values := table (scan_result a g player)\<rparr>" and g': "g' = g"
    unfolding choose_action_exploit[OF assms(1)] by (auto split: sum.splits)
  show ?thesis
    using scan_result_table[where a=a and g=g and player=player]
    by (simp add: a' g' value_of_def)
qed

theorem choose_action_exploit_frame_witness:
  "\<not> (0::real) < epsilon (SimpleAIAgent_init 0) \<and>
   choose_action (SimpleAIAgent_init 0) top_row_won ''O'' 0 0 =
     Inr (5, (SimpleAIAgent_init 0)\<lparr>state_values :=
               table (scan_result (SimpleAIAgent_init 0) top_row_won ''O'')\<rparr>, top_row_won) \<and>
   state_visits ((SimpleAIAgent_init 0)\<lparr>state_values :=
               table (scan_result (SimpleAIAgent_init 0) top_row_won ''O'')\<rparr>) = Map.empty \<and>
   dom (table (scan_result (SimpleAIAgent_init 0) top_row_won ''O'')) =
     {''XXXOOO   '', ''XXXOO O  '', ''XXXOO  O '', ''XXXOO   O''}"
proof -
  have eps: "\<not> (0::real) < epsilon (SimpleAIAgent_init 0)"
    by (simp add: SimpleAIAgent_init_def)
  have av: "available_moves top_row_won = [5, 6, 7, 8]"
    by (simp add: top_row_won_def available_moves_def)
  have best: "best_moves (scan_result (SimpleAIAgent_init 0) top_row_won ''O'') = [5, 6, 7, 8]"
    unfolding scan_result_def av
    by (simp add: top_row_won_def scan_move_def list_copy_def list_setitem_def
        defaultdict_getitem_def SimpleAIAgent_init_def Let_def)
  have run: "choose_action (SimpleAIAgent_init 0) top_row_won ''O'' 0 0 =
     Inr (5, (SimpleAIAgent_init 0)\<lparr>state_values :=
               table (scan_result (SimpleAIAgent_init 0) top_row_won ''O'')\<rparr>, top_row_won)"
    unfolding choose_action_exploit[OF eps] best by (simp add: random_choice_def)
  have keys: "next_state_key top_row_won ''O'' ` set (available_moves top_row_won) =
      {''XXXOOO   '', ''XXXOO O  '', ''XXXOO  O '', ''XXXOO   O''}"
    unfolding av by (simp add: next_state_key_def top_row_won_def)
  have none: "dom (state_values (SimpleAIAgent_init 0)) = {}"
    "state_visits (SimpleAIAgent_init 0) = Map.empty"
    by (simp_all add: SimpleAIAgent_init_def)
  from choose_action_exploit_frame[OF eps run]
  have "state_visits ((SimpleAIAgent_init 0)\<lparr>state_values :=
               table (scan_result (SimpleAIAgent_init 0) top_row_won ''O'')\<rparr>) = Map.empty"
    and "dom (table (scan_result (SimpleAIAgent_init 0) top_row_won ''O'')) =
      {''XXXOOO   '', ''XXXOO O  '', ''XXXOO  O '', ''XXXOO   O''}"
    unfolding keys none by simp_all
  with eps run show ?thesis
    by blast
qed

text \<open>
  Claim C6. Without an available move \<open>choose_action\<close> raises IndexError, in the
  exploration branch and in the exploitation branch alike; with at least one available
  move it returns one of the available moves.
\<close>

theorem choose_action_fails_iff_no_moves:
  "(available_moves g = [] \<longrightarrow> choose_action a g player u r = Inl IndexError) \<and>
   (available_moves g \<noteq> [] \<longrightarrow>
      (\<exists>move a'. choose_action a g player u r = Inr (move, a', g) \<and>
                 move \<in> set (available_moves g)))"
  using choose_action_empty[where g=g and a=a and player=player and u=u and r=r]
    choose_action_nonempty[where g=g and a=a and player=player and u=u and r=r]
  by blast

theorem choose_action_fails_iff_no_moves_witness:
  "available_moves drawn_game = [] \<and>
   choose_action (SimpleAIAgent_init (1 / 10)) drawn_game ''O'' 0 3 = Inl IndexError \<and>
   choose_action (SimpleAIAgent_init (1 / 10)) drawn_game ''O'' (1 / 2) 3 = Inl IndexError \<and>
   available_moves top_row_won \<noteq> [] \<and>
   (\<exists>move a'. choose_action (SimpleAIAgent_init (1 / 10)) top_row_won ''O'' (1 / 2) 3 =
        Inr (move, a', top_row_won) \<and> move \<in> set (available_moves top_row_won))"
proof -
  have e: "available_moves drawn_game = []"
    by (simp add: drawn_game_def available_moves_def)
  have n: "available_moves top_row_won \<noteq> []"
    by (simp add: top_row_won_def available_moves_def)
  from choose_action_fails_iff_no_moves[of drawn_game "SimpleAIAgent_init (1 / 10)" "''O''" 0 3]
    choose_action_fails_iff_no_moves[of drawn_game "SimpleAIAgent_init (1 / 10)" "''O''" "1 / 2" 3]
    choose_action_fails_iff_no_moves[of top_row_won "SimpleAIAgent_init (1 / 10)" "''O''" "1 / 2" 3]
    e n
  show ?thesis
    by blast
qed

lemma learn_Cons:
  "learn (k # ks) r a =
     (case truediv (fsub r (value_of a k)) (visits_of a k + 1) of
        Inl e \<Rightarrow> Inl e
      | Inr step \<Rightarrow>
          learn ks r
            (a\<lparr>state_visits := (state_visits a)(k \<mapsto> visits_of a k + 1),
               state_values := (state_values a)(k \<mapsto> fadd (value_of a k) step)\<rparr>))"
  by (simp add: visits_of_def value_of_def defaultdict_getitem_def split: option.splits
      cong: sum.case_cong)

lemma learn_visits:
  assumes "\<forall>k. 0 \<le> visits_of a k \<and>
             real_of_int (visits_of a k) + real (length ks) \<le> pow2 1023"
  shows "\<exists>a'. learn ks r a = Inr a' \<and> epsilon a' = epsilon a \<and>
           (\<forall>k. visits_of a' k = visits_of a k + int (count_list ks k))"
  using assms
proof (induction ks arbitrary: a)
  case Nil
  then show ?case by simp
next
  case (Cons k0 ks)
  have n: "1 \<le> visits_of a k0 + 1" "real_of_int (visits_of a k0 + 1) \<le> pow2 1023"
    using Cons.prems[rule_format, of k0] by simp_all
  from truediv_ok[OF n] obtain step where
    step: "truediv (fsub r (value_of a k0)) (visits_of a k0 + 1) = Inr step"
    by blast
  define a1 where
    "a1 = a\<lparr>state_visits := (state_visits a)(k0 \<mapsto> visits_of a k0 + 1),
            state_values := (state_values a)(k0 \<mapsto> fadd (value_of a k0) step)\<rparr>"
  have v1: "visits_of a1 k = visits_of a k + (if k = k0 then 1 else 0)" for k
    by (simp add: a1_def visits_of_def)
  have "0 \<le> visits_of a1 k \<and>
          real_of_int (visits_of a1 k) + real (length ks) \<le> pow2 1023" for k
    using Cons.prems[rule_format, of k] by (cases "k = k0") (simp_all add: v1)
  then have "\<forall>k. 0 \<le> visits_of a1 k \<and>
          real_of_int (visits_of a1 k) + real (length ks) \<le> pow2 1023"
    by blast
  from Cons.IH[OF this] obtain a' where
    "learn ks r a1 = Inr a'" "epsilon a' = epsilon a1"
    "\<forall>k. visits_of a' k = visits_of a1 k + int (count_list ks k)"
    by blast
  moreover have "learn (k0 # ks) r a = learn ks r a1"
    unfolding learn_Cons step a1_def by simp
  moreover have "epsilon a1 = epsilon a"
    by (simp add: a1_def)
  ultimately show ?case
    by (simp add: v1)
qed

section \<open>Self-play training\<close>

lemma count_list_update:
  "i < length b \<Longrightarrow> b ! i = x \<Longrightarrow> v \<noteq> x \<Longrightarrow>
   Suc (count_list (b[i := v]) x) = count_list b x"
proof (induction b arbitrary: i)
  case Nil
  then show ?case by simp
next
  case (Cons c b)
  then show ?case
    by (cases i) auto
qed

lemma list_update_same: "b ! i = x \<Longrightarrow> b[i := x] = b"
  using list_update_id[of b i] by simp

lemma make_move_measure:
  assumes mv: "make_move move None g = Inr (ok, g2)"
    and av: "move \<in> set (available_moves g)"
    and live: "\<not> game_over g"
  shows "loop_measure g2 < loop_measure g"
proof -
  from av obtain i where i: "move = int i" "i < length (board g)" "board g ! i = '' ''"
    by (auto simp: set_available_moves)
  define b1 where "b1 = (board g)[i := current_player g]"
  have shape: "game_over g2 \<or>
      (g2 = g\<lparr>board := b1, current_player := (if current_player g = ''X'' then ''O'' else ''X'')\<rparr>)"
    using mv av by (auto simp: make_move_def Let_def i b1_def split: sum.splits if_splits)
  show ?thesis
  proof (cases "game_over g2")
    case True
    then show ?thesis
      using live by (simp add: loop_measure_def)
  next
    case False
    with shape have g2: "g2 = g\<lparr>board := b1,
        current_player := (if current_player g = ''X'' then ''O'' else ''X'')\<rparr>"
      by simp
    show ?thesis
    proof (cases "current_player g = '' ''")
      case True
      then have "b1 = board g"
        using i by (simp add: b1_def list_update_same)
      then show ?thesis
        using live True by (simp add: g2 loop_measure_def)
    next
      case False
      from count_list_update[OF i(2,3) False] show ?thesis
        using live False by (auto simp: g2 loop_measure_def b1_def)
    qed
  qed
qed

text \<open>
  The inner loop terminates from every session: each iteration ends the game, or fills a
  blank cell, or (when the current player is the blank string) makes \<open>X\<close> the player.
\<close>

termination play_loop
proof (relation "measure (\<lambda>(rng, a, g, x_states, o_states, t). loop_measure g)")
  show "wf (measure (\<lambda>(rng, a, g, x_states, o_states, t). loop_measure g))"
    by simp
next
  fix rng :: rng and a g x_states o_states t current_state x_states' o_states' res mv_a' move a_g1 a' g1
    ok_g2 ok g2
  assume live: "\<not> game_over g"
    and ch: "choose_action a g (current_player g) (fst (rng t)) (snd (rng t)) = Inr res"
    and "(move, a_g1) = res" and "(a', g1) = a_g1"
    and mv: "make_move move None g1 = Inr ok_g2" and "(ok, g2) = ok_g2"
  then have ch': "choose_action a g (current_player g) (fst (rng t)) (snd (rng t)) = Inr (move, a', g1)"
    and mv': "make_move move None g1 = Inr (ok, g2)"
    by simp_all
  from choose_action_Inr[OF ch'] have "g1 = g" "move \<in> set (available_moves g)"
    by simp_all
  with mv' live have "loop_measure g2 < loop_measure g"
    by (simp add: make_move_measure)
  then show "((rng, a', g2, x_states', o_states', t + 1), rng, a, g, x_states, o_states, t)
        \<in> measure (\<lambda>(rng, a, g, x_states, o_states, t). loop_measure g)"
    by simp
qed

declare play_loop.simps [simp del]

lemma play_loop_counts:
  assumes "game_inv g"
  shows "\<exists>a' g' xs' os' t'.
           play_loop rng a g xs os t = Inr (a', g', xs', os', t') \<and>
           state_visits a' = state_visits a \<and> epsilon a' = epsilon a \<and>
           game_inv g' \<and> game_over g' \<and>
           length (xs' @ os') \<le> length (xs @ os) + count_list (board g) '' '' \<and>
           count_list (xs' @ os') empty_key =
             count_list (xs @ os) empty_key +
             (if \<not> game_over g \<and> board g = replicate 9 '' '' then 1 else 0)"
  using assms
proof (induction "loop_measure g" arbitrary: a g xs os t rule: less_induct)
  case less
  note inv = less.prems
  show ?case
  proof (cases "game_over g")
    case True
    then show ?thesis
      using inv by (subst play_loop.simps) simp
  next
    case live: False
    have len: "length (board g) = 9" and cells: "set (board g) \<subseteq> {'' '', ''X'', ''O''}"
      and cp: "current_player g = ''X'' \<or> current_player g = ''O''"
      and blank: "'' '' \<in> set (board g)"
      using inv live by (auto simp: game_inv_def)
    from blank have av_ne: "available_moves g \<noteq> []"
      using set_available_moves[of g] by (auto simp: in_set_conv_nth)
    define u where "u = fst (rng t)"
    define r where "r = snd (rng t)"
    from choose_action_nonempty[OF av_ne, of a "current_player g" u r] obtain move a1 where
      ch: "choose_action a g (current_player g) u r = Inr (move, a1, g)"
      and av: "move \<in> set (available_moves g)"
      and a1: "epsilon a1 = epsilon a" "state_visits a1 = state_visits a"
      by blast
    obtain g2 where mv: "make_move move None g = Inr (True, g2)"
      using make_move_available[OF av len, of None] by (simp add: Let_def)
    have inv2: "game_inv g2"
      using game_inv_make_move[OF inv live _ mv] by simp
    have less2: "loop_measure g2 < loop_measure g"
      using make_move_measure[OF mv av live] .
    have b2: "board g2 = (board g)[nat move := current_player g]"
      using make_move_board[OF av len mv] by simp
    from av obtain i where i: "move = int i" "i < length (board g)" "board g ! i = '' ''"
      by (auto simp: set_available_moves)
    have fewer: "Suc (count_list (board g2) '' '') = count_list (board g) '' ''"
      using count_list_update[OF i(2,3), of "current_player g"] cp i(1) by (auto simp: b2)
    have "board g2 ! i = current_player g"
      using i by (simp add: b2)
    moreover have "replicate 9 '' '' ! i = '' ''"
      using i len by simp
    ultimately have nonblank2: "board g2 \<noteq> replicate 9 '' ''"
      using cp by auto
    define xs1 where "xs1 = (if current_player g = ''X'' then xs @ [get_state g] else xs)"
    define os1 where "os1 = (if current_player g = ''X'' then os else os @ [get_state g])"
    have step: "play_loop rng a g xs os t = play_loop rng a1 g2 xs1 os1 (t + 1)"
      using live ch mv
      by (subst play_loop.simps) (simp add: Let_def u_def r_def xs1_def os1_def)
    have rec: "count_list (xs1 @ os1) empty_key =
               count_list (xs @ os) empty_key + (if board g = replicate 9 '' '' then 1 else 0)"
    proof -
      have key: "(get_state g = empty_key) = (board g = replicate 9 '' '')"
        using blank_board_key[OF len cells] by (simp add: get_state_def)
      show ?thesis
        by (simp add: xs1_def os1_def key)
    qed
    from less.hyps[OF less2 inv2, of a1 xs1 os1 "t + 1"] obtain a' g' xs' os' t' where
      res: "play_loop rng a1 g2 xs1 os1 (t + 1) = Inr (a', g', xs', os', t')"
      and keep: "state_visits a' = state_visits a1" "epsilon a' = epsilon a1"
      and fin: "game_inv g'" "game_over g'"
      and len': "length (xs' @ os') \<le> length (xs1 @ os1) + count_list (board g2) '' ''"
      and cnt: "count_list (xs' @ os') empty_key =
                count_list (xs1 @ os1) empty_key +
                (if \<not> game_over g2 \<and> board g2 = replicate 9 '' '' then 1 else 0)"
      by blast
    have "count_list (xs' @ os') empty_key =
            count_list (xs @ os) empty_key +
            (if \<not> game_over g \<and> board g = replicate 9 '' '' then 1 else 0)"
      using cnt rec nonblank2 live by simp
    moreover have "length (xs1 @ os1) = Suc (length (xs @ os))"
      by (simp add: xs1_def os1_def)
    with len' fewer have "length (xs' @ os') \<le> length (xs @ os) + count_list (board g) '' ''"
      by linarith
    ultimately show ?thesis
      using step res keep a1 fin by simp
  qed
qed

lemma run_episode_visits:
  assumes bound: "\<forall>k. 0 \<le> visits_of a k \<and> real_of_int (visits_of a k) \<le> M"
    and room: "M + 9 \<le> pow2 1023"
  shows "\<exists>a' g' t'. run_episode rng a g t = Inr (a', g', t') \<and>
           epsilon a' = epsilon a \<and>
           (\<forall>k. 0 \<le> visits_of a' k \<and> real_of_int (visits_of a' k) \<le> M + 9) \<and>
           visits_of a' empty_key = visits_of a empty_key + 1"
proof -
  from play_loop_counts[OF game_inv_reset, of rng a g "[]" "[]" t]
  obtain a1 g1 xs os t1 where
    play: "play_loop rng a (snd (reset g)) [] [] t = Inr (a1, g1, xs, os, t1)"
    and keep: "state_visits a1 = state_visits a" "epsilon a1 = epsilon a"
    and len: "length (xs @ os) \<le> 9"
    and cnt: "count_list (xs @ os) empty_key = 1"
    by (auto simp: reset_eq numeral_eq_Suc)
  define rx where
    "rx = (if winner g1 = Some ''X'' then Finite 1
           else if winner g1 = Some ''O'' then Finite 0 else Finite (1 / 2))"
  define ro where
    "ro = (if winner g1 = Some ''X'' then Finite 0
           else if winner g1 = Some ''O'' then Finite 1 else Finite (1 / 2))"
  have same: "visits_of a1 k = visits_of a k" for k
    using keep by (simp add: visits_of_def)
  have lx: "real (length xs) + real (length os) \<le> 9"
    using len by simp
  have b1: "\<forall>k. 0 \<le> visits_of a1 k \<and>
      real_of_int (visits_of a1 k) + real (length xs) \<le> pow2 1023"
  proof
    fix k
    have "0 \<le> real (length os)"
      by simp
    with room lx show "0 \<le> visits_of a1 k \<and>
        real_of_int (visits_of a1 k) + real (length xs) \<le> pow2 1023"
      using bound[rule_format, of k] unfolding same by linarith
  qed
  from learn_visits[OF b1, of rx] obtain a2 where
    l1: "learn xs rx a1 = Inr a2" and e2: "epsilon a2 = epsilon a1"
    and v2: "\<And>k. visits_of a2 k = visits_of a1 k + int (count_list xs k)"
    by blast
  have cx: "count_list xs k \<le> length xs" and co: "count_list os k \<le> length os" for k
    by (rule count_le_length)+
  have b2: "\<forall>k. 0 \<le> visits_of a2 k \<and>
      real_of_int (visits_of a2 k) + real (length os) \<le> pow2 1023"
  proof
    fix k
    have "real_of_int (visits_of a2 k) \<le> real_of_int (visits_of a k) + real (length xs)"
      using cx[of k] by (simp add: v2 same)
    moreover have "0 \<le> visits_of a2 k"
      using bound[rule_format, of k] by (simp add: v2 same)
    ultimately show "0 \<le> visits_of a2 k \<and>
        real_of_int (visits_of a2 k) + real (length os) \<le> pow2 1023"
      using bound[rule_format, of k] room lx by linarith
  qed
  from learn_visits[OF b2, of ro] obtain a3 where
    l2: "learn os ro a2 = Inr a3" and e3: "epsilon a3 = epsilon a2"
    and v3: "\<And>k. visits_of a3 k = visits_of a2 k + int (count_list os k)"
    by blast
  have run: "run_episode rng a g t = Inr (a3, g1, t1)"
    using l1 l2 unfolding rx_def ro_def by (auto simp: run_episode_def play)
  have "visits_of a3 empty_key = visits_of a empty_key + 1"
    using cnt by (simp add: v3 v2 same)
  moreover have "0 \<le> visits_of a3 k \<and> real_of_int (visits_of a3 k) \<le> M + 9" for k
  proof -
    have "real_of_int (visits_of a3 k) \<le>
        real_of_int (visits_of a k) + real (length xs) + real (length os)"
      using cx[of k] co[of k] by (simp add: v3 v2 same)
    moreover have "0 \<le> visits_of a3 k"
      using bound[rule_format, of k] by (simp add: v3 v2 same)
    ultimately show ?thesis
      using bound[rule_format, of k] lx by linarith
  qed
  ultimately show ?thesis
    using run e3 e2 keep by simp
qed

lemma train_loop_visits:
  assumes "\<forall>k. 0 \<le> visits_of a k \<and> real_of_int (visits_of a k) \<le> M"
    and "M + 9 * real (episodes_run eps) \<le> pow2 1023"
  shows "\<exists>a' t'. train_loop rng eps a g t = Inr (a', t') \<and>
           epsilon a' = epsilon a \<and>
           visits_of a' empty_key = visits_of a empty_key + int (episodes_run eps)"
  using assms
proof (induction eps arbitrary: a g t M)
  case Nil
  then show ?case by simp
next
  case (Cons e eps)
  have room: "M + 9 \<le> pow2 1023"
    using Cons.prems(2) by (simp split: if_splits)
  from run_episode_visits[OF Cons.prems(1) room, of rng g t] obtain a1 g1 t1 where
    run: "run_episode rng a g t = Inr (a1, g1, t1)" and e1: "epsilon a1 = epsilon a"
    and b1: "\<forall>k. 0 \<le> visits_of a1 k \<and> real_of_int (visits_of a1 k) \<le> M + 9"
    and v1: "visits_of a1 empty_key = visits_of a empty_key + 1"
    by blast
  show ?case
  proof (cases "(e + 1) mod 1000 = 0")
    case True
    then show ?thesis
      using run e1 v1 by simp
  next
    case False
    then have "M + 9 + 9 * real (episodes_run eps) \<le> pow2 1023"
      using Cons.prems(2) by simp
    from Cons.IH[OF b1 this, of g1 t1] obtain a' t' where
      "train_loop rng eps a1 g1 t1 = Inr (a', t')" "epsilon a' = epsilon a1"
      "visits_of a' empty_key = visits_of a1 empty_key + int (episodes_run eps)"
      by blast
    then show ?thesis
      using run e1 v1 False by simp
  qed
qed

lemma episodes_run_upt:
  "i < 1000 \<Longrightarrow> episodes_run [i..<i + n] = min n (1000 - i)"
proof (induction n arbitrary: i)
  case 0
  then show ?case by simp
next
  case (Suc n)
  have split: "[i..<i + Suc n] = i # [Suc i..<Suc i + n]"
    by (simp add: upt_rec)
  show ?case
  proof (cases "Suc i = 1000")
    case True
    then show ?thesis unfolding split by simp
  next
    case False
    with Suc.prems have "Suc i < 1000" "(i + 1) mod 1000 \<noteq> 0"
      by simp_all
    with Suc.IH[of "Suc i"] show ?thesis
      unfolding split by simp
  qed
qed

text \<open>
  Claim C1 fails on the code. Every episode starts from the empty board, whose key is the
  first state of the trajectory of \<open>X\<close> and occurs nowhere else in the episode, so each
  episode that reaches \<open>learn\<close> adds exactly one visit to that key. With visit counts
  from 0 to \<open>2 ^ 1000\<close> (far below the counts whose conversion to float overflows),
  \<open>train_agent\<close> returns without error, and the visits it adds to the key of the empty
  board are the requested number of episodes only up to 1000: the \<open>return\<close> under the
  progress check ends training after episode 1000. With \<open>episodes = 10000\<close>, 1000 episodes
  are played.
\<close>

theorem train_agent_episodes:
  assumes "\<forall>k. 0 \<le> visits_of a k \<and> visits_of a k \<le> 2 ^ 1000"
  shows "\<exists>a' t'. train_agent a episodes rng t = Inr (a', t') \<and>
           visits_of a' empty_key = visits_of a empty_key + int (min (nat episodes) 1000)"
proof -
  define z :: real where "z = 2 ^ 1000"
  have z: "pow2 1023 = 2 ^ 23 * z"
    using pow2_shift[of 1000 23] by (simp add: z_def pow2_def)
  have "(2::real) ^ 14 \<le> 2 ^ 1000"
    by (rule power_increasing) simp_all
  then have big: "16384 \<le> z"
    by (simp add: z_def)
  have runs: "episodes_run [0..<nat episodes] = min (nat episodes) 1000"
    using episodes_run_upt[of 0 "nat episodes"] by simp
  have b: "\<forall>k. 0 \<le> visits_of a k \<and> real_of_int (visits_of a k) \<le> z"
  proof
    fix k
    have "real_of_int (visits_of a k) \<le> real_of_int (2 ^ 1000)"
      using assms[rule_format, of k] by (simp only: of_int_le_iff)
    then show "0 \<le> visits_of a k \<and> real_of_int (visits_of a k) \<le> z"
      using assms[rule_format, of k] by (simp add: z_def)
  qed
  have "real (min (nat episodes) 1000) \<le> 1000"
    by simp
  moreover have "(2::real) ^ 23 * z = 8388608 * z"
    by simp
  ultimately have room: "z + 9 * real (episodes_run [0..<nat episodes]) \<le> pow2 1023"
    unfolding runs z using big by linarith
  from train_loop_visits[OF b room, of rng TicTacToeGame_init t] show ?thesis
    by (auto simp: train_agent_def runs)
qed

theorem train_agent_episodes_witness:
  "\<exists>a' t'. train_agent (SimpleAIAgent_init (1 / 10)) 10000 (\<lambda>t. (1 / 2, t)) 0 = Inr (a', t') \<and>
     visits_of a' empty_key = 1000"
proof -
  have "\<forall>k. 0 \<le> visits_of (SimpleAIAgent_init (1 / 10)) k \<and>
      visits_of (SimpleAIAgent_init (1 / 10)) k \<le> 2 ^ 1000"
    by (simp add: visits_of_def SimpleAIAgent_init_def)
  from train_agent_episodes[OF this, of 10000 "\<lambda>t. (1 / 2, t)" 0] show ?thesis
    by (simp add: visits_of_def SimpleAIAgent_init_def)
qed

end
